theory Spec2Isabelle
  imports Main "HOL-Library.Char_ord" "HOL-Library.List_Lexorder" "HOL-Library.Multiset"
begin

section \<open>Data model of app.py\<close>

text \<open>
  The records of \<^verbatim>\<open>people.json\<close> and \<^verbatim>\<open>events.json\<close> are Python dicts.  The functions
  modelled here read the keys \<^verbatim>\<open>id\<close>, \<^verbatim>\<open>full_name\<close>, \<^verbatim>\<open>parents\<close> (of a person) and
  \<^verbatim>\<open>date\<close> (of an event).  Every key may be missing, so every field is an option:
  \<^verbatim>\<open>d.get(k)\<close> is the field itself, \<^verbatim>\<open>d.get(k, v)\<close> replaces \<open>None\<close> by \<open>v\<close>, and
  \<^verbatim>\<open>d[k]\<close> raises \<^verbatim>\<open>KeyError\<close> on \<open>None\<close>.  The values have the types of the data
  model: identifiers, names and dates are strings, \<^verbatim>\<open>parents\<close> is a list of identifiers.
  All remaining keys of a dict live in the extension part of the record scheme, so the
  functions below are defined for records with arbitrary further fields.  The key
  \<^verbatim>\<open>id\<close> is the field \<open>p_id\<close>, since \<open>id\<close> is the identity function of HOL.
\<close>

record person =
  p_id :: "string option"
  full_name :: "string option"
  parents :: "string list option"

record event =
  date :: "string option"
  title :: "string option"

text \<open>
  The exceptions that the modelled code raises or lets through: \<^verbatim>\<open>KeyError\<close> of a
  subscript on a missing key, and the exceptions of \<^verbatim>\<open>path.open\<close> and \<^verbatim>\<open>json.load\<close>.
\<close>

datatype error =
    KeyError string
  | FileNotFoundError
  | JSONDecodeError string
  | PermissionError
  | IsADirectoryError
  | UnicodeDecodeError string

section \<open>Data store: \<^verbatim>\<open>load_json\<close>\<close>

text \<open>
  \<^verbatim>\<open>
  try:
      with path.open("r", encoding="utf-8") as f:
          return json.load(f)
  except FileNotFoundError:
      st.error(f"File not found: {path}")
      return []
  except json.JSONDecodeError as e:
      st.error(f"Error parsing {path}: {e}")
      return []
  \<close>
  Opening and parsing the file is the work of the Python library; its outcome is a
  parameter \<open>read\<close>: for a path either the parsed content or the exception raised
  (\<^verbatim>\<open>JSONDecodeError\<close> carries its message, \<^verbatim>\<open>str(e)\<close>).  The calls of
  \<^verbatim>\<open>st.error\<close> are returned as the list of notices shown to the user.
\<close>

definition load_json :: "(string \<Rightarrow> error + 'a list) \<Rightarrow> string \<Rightarrow> error + ('a list \<times> string list)" where
  "load_json read path =
     (case read path of
        Inr data \<Rightarrow> Inr (data, [])
      | Inl FileNotFoundError \<Rightarrow> Inr ([], [''File not found: '' @ path])
      | Inl (JSONDecodeError e) \<Rightarrow> Inr ([], [''Error parsing '' @ path @ '': '' @ e])
      | Inl other \<Rightarrow> Inl other)"

section \<open>Lookup: \<^verbatim>\<open>get_person_by_id\<close> and \<^verbatim>\<open>link_person\<close>\<close>

text \<open>
  \<^verbatim>\<open>
  for person in people:
      if person.get("id") == person_id:
          return person
  return None
  \<close>
\<close>

fun get_person_by_id :: "'a person_scheme list \<Rightarrow> string \<Rightarrow> 'a person_scheme option" where
  "get_person_by_id [] person_id = None"
| "get_person_by_id (person # people) person_id =
     (if p_id person = Some person_id then Some person
      else get_person_by_id people person_id)"

text \<open>
  \<^verbatim>\<open>
  p = get_person_by_id(people, pid)
  if p:
      profile_query = "?profile=" + p["id"]
      return f"[{p['full_name']}]({profile_query})"
  return pid
  \<close>
  A dict returned by the lookup has the key \<^verbatim>\<open>id\<close>, hence is not empty and passes the
  test \<^verbatim>\<open>if p\<close>.  The two subscripts raise \<^verbatim>\<open>KeyError\<close> on a missing key, in the order
  in which the source evaluates them.
\<close>

definition link_person :: "'a person_scheme list \<Rightarrow> string \<Rightarrow> error + string" where
  "link_person people pid =
     (case get_person_by_id people pid of
        None \<Rightarrow> Inr pid
      | Some p \<Rightarrow>
          (case p_id p of
             None \<Rightarrow> Inl (KeyError ''id'')
           | Some i \<Rightarrow>
               (let profile_query = ''?profile='' @ i in
                case full_name p of
                  None \<Rightarrow> Inl (KeyError ''full_name'')
                | Some n \<Rightarrow> Inr (''['' @ n @ '']('' @ profile_query @ '')''))))"

section \<open>Tree builder: \<^verbatim>\<open>build_graph\<close>\<close>

text \<open>
  The \<^verbatim>\<open>Digraph\<close> object collects the calls \<^verbatim>\<open>graph.node(name, label)\<close> and
  \<^verbatim>\<open>graph.edge(tail, head)\<close> in the order in which they are made.
\<close>

record digraph =
  nodes :: "(string \<times> string) list"
  edges :: "(string \<times> string) list"

definition node :: "string \<Rightarrow> string \<Rightarrow> digraph \<Rightarrow> digraph" where
  "node name label g = g\<lparr>nodes := nodes g @ [(name, label)]\<rparr>"

definition edge :: "string \<Rightarrow> string \<Rightarrow> digraph \<Rightarrow> digraph" where
  "edge tail_name head_name g = g\<lparr>edges := edges g @ [(tail_name, head_name)]\<rparr>"

text \<open>
  The closure \<^verbatim>\<open>add_node\<close> mutates the set \<^verbatim>\<open>visited\<close> and the graph; the model threads
  both through the calls.  An exception leaves the whole of \<^verbatim>\<open>build_graph\<close>.  The
  recursion limit of the interpreter is not part of the model: the depth of the
  recursion is at most \<open>max_generations + 2\<close> calls.
\<close>

record build_state =
  visited :: "string set"
  graph :: digraph

text \<open>
  \<^verbatim>\<open>
  def add_node(pid, generation):
      if pid in visited or generation > max_generations:
          return
      visited.add(pid)
      person = get_person_by_id(people, pid)
      label = person["full_name"] if person else pid
      graph.node(pid, label)
      if person:
          for parent_id in person.get("parents", []):
              graph.edge(parent_id, pid)
              add_node(parent_id, generation + 1)
  \<close>
  \<open>get_parents\<close> is \<^verbatim>\<open>person.get("parents", [])\<close>, and \<open>add_parents\<close> is the
  \<^verbatim>\<open>for\<close> loop over that list, for the child \<open>pid\<close>.
\<close>

definition get_parents :: "'a person_scheme \<Rightarrow> string list" where
  "get_parents person = (case parents person of None \<Rightarrow> [] | Some ps \<Rightarrow> ps)"

text \<open>
  The measure of the recursion.  A call of \<open>add_node\<close> below the generation bound has
  rank \<open>2 * k\<close> with \<open>k = max_generations + 1 - generation\<close>; its loop has rank
  \<open>2 * k - 1\<close> and, second, the length of the list still to do; a call of \<open>add_node\<close>
  beyond the bound has rank 0 and makes no call at all.
\<close>

definition call_rank ::
  "('a person_scheme list \<times> int \<times> string \<times> int \<times> build_state) +
   ('a person_scheme list \<times> int \<times> string \<times> int \<times> string list \<times> build_state) \<Rightarrow> nat" where
  "call_rank c =
     (case c of
        Inl (people, max_generations, pid, generation, st) \<Rightarrow>
          2 * nat (max_generations + 1 - generation)
      | Inr (people, max_generations, pid, generation, ps, st) \<Rightarrow>
          (if generation > max_generations then 1
           else 2 * nat (max_generations + 1 - generation) - 1))"

definition call_todo ::
  "('a person_scheme list \<times> int \<times> string \<times> int \<times> build_state) +
   ('a person_scheme list \<times> int \<times> string \<times> int \<times> string list \<times> build_state) \<Rightarrow> nat" where
  "call_todo c =
     (case c of
        Inl (people, max_generations, pid, generation, st) \<Rightarrow> 0
      | Inr (people, max_generations, pid, generation, ps, st) \<Rightarrow> length ps)"

function add_node ::
    "'a person_scheme list \<Rightarrow> int \<Rightarrow> string \<Rightarrow> int \<Rightarrow> build_state \<Rightarrow> error + build_state"
  and add_parents ::
    "'a person_scheme list \<Rightarrow> int \<Rightarrow> string \<Rightarrow> int \<Rightarrow> string list \<Rightarrow> build_state
       \<Rightarrow> error + build_state"
where
  "add_node people max_generations pid generation st =
     (if pid \<in> visited st \<or> generation > max_generations then Inr st
      else
        let st1 = st\<lparr>visited := insert pid (visited st)\<rparr> in
        case get_person_by_id people pid of
          None \<Rightarrow> Inr (st1\<lparr>graph := node pid pid (graph st1)\<rparr>)
        | Some person \<Rightarrow>
            (case full_name person of
               None \<Rightarrow> Inl (KeyError ''full_name'')
             | Some label \<Rightarrow>
                 add_parents people max_generations pid generation (get_parents person)
                   (st1\<lparr>graph := node pid label (graph st1)\<rparr>)))"
| "add_parents people max_generations pid generation [] st = Inr st"
| "add_parents people max_generations pid generation (parent_id # rest) st =
     (case add_node people max_generations parent_id (generation + 1)
             (st\<lparr>graph := edge parent_id pid (graph st)\<rparr>) of
        Inl e \<Rightarrow> Inl e
      | Inr st' \<Rightarrow> add_parents people max_generations pid generation rest st')"
  by pat_completeness auto

termination
  by (relation "measures [call_rank, call_todo]")
     (auto simp: call_rank_def call_todo_def)

text \<open>
  \<^verbatim>\<open>
  graph = Digraph(format="png")
  visited = set()
  ...
  add_node(start_id, 0)
  return graph
  \<close>
\<close>

definition new_graph :: build_state where
  "new_graph = \<lparr>visited = {}, graph = \<lparr>nodes = [], edges = []\<rparr>\<rparr>"

definition build_graph :: "'a person_scheme list \<Rightarrow> string \<Rightarrow> int \<Rightarrow> error + digraph" where
  "build_graph people start_id max_generations =
     (case add_node people max_generations start_id 0 new_graph of
        Inl e \<Rightarrow> Inl e
      | Inr st \<Rightarrow> Inr (graph st))"

section \<open>Timeline: the sort of \<^verbatim>\<open>render_timeline\<close>\<close>

text \<open>
  \<^verbatim>\<open>sorted_events = sorted(events, key=lambda e: e.get("date", ""))\<close>

  Python's \<^verbatim>\<open>sorted\<close> is a stable sort by the key; on strings \<^verbatim>\<open><\<close> compares code
  point by code point, the shorter string first when one is a prefix of the other.
  The order on \<^typ>\<open>string\<close> used here is the lexicographic order of the lists of
  characters, characters compared by their codes.  A character of HOL is a byte; on
  UTF-8 text the order of the byte sequences is the order of the code point sequences.
\<close>

definition date_key :: "'a event_scheme \<Rightarrow> string" where
  "date_key e = (case date e of None \<Rightarrow> [] | Some d \<Rightarrow> d)"

definition chronological :: "'a event_scheme list \<Rightarrow> 'a event_scheme list" where
  "chronological events = sort_key date_key events"

section \<open>Notions used in the statements\<close>

text \<open>
  Plain lexicographic comparison of two strings, written out: the first position where
  they differ decides, by the character codes; a proper prefix comes first.
\<close>

fun str_le :: "string \<Rightarrow> string \<Rightarrow> bool" where
  "str_le [] ys = True"
| "str_le (x # xs) [] = False"
| "str_le (x # xs) (y # ys) =
     ((of_char x :: nat) < of_char y \<or> (x = y \<and> str_le xs ys))"

text \<open>The identifiers present in a collection, in order, and their uniqueness.\<close>

fun ids_of :: "'a person_scheme list \<Rightarrow> string list" where
  "ids_of [] = []"
| "ids_of (person # people) =
     (case p_id person of None \<Rightarrow> ids_of people | Some i \<Rightarrow> i # ids_of people)"

definition unique_ids :: "'a person_scheme list \<Rightarrow> bool" where
  "unique_ids people = distinct (ids_of people)"

text \<open>Every record has the key \<^verbatim>\<open>full_name\<close>; no parent list repeats an identifier.\<close>

definition all_named :: "'a person_scheme list \<Rightarrow> bool" where
  "all_named people = list_all (\<lambda>p. full_name p \<noteq> None) people"

definition unique_parents :: "'a person_scheme list \<Rightarrow> bool" where
  "unique_parents people = list_all (\<lambda>p. distinct (get_parents p)) people"

text \<open>
  The invariant of the traversal: the visited identifiers are the identifiers of the
  nodes emitted, no identifier has two nodes, a node whose identifier resolves to no
  record is labelled by the identifier, and the head of every edge has been visited.
\<close>

definition wf_state :: "'a person_scheme list \<Rightarrow> build_state \<Rightarrow> bool" where
  "wf_state people st \<longleftrightarrow>
     visited st = fst ` set (nodes (graph st)) \<and>
     distinct (map fst (nodes (graph st))) \<and>
     (\<forall>(i, l) \<in> set (nodes (graph st)). get_person_by_id people i = None \<longrightarrow> l = i) \<and>
     snd ` set (edges (graph st)) \<subseteq> visited st"

text \<open>
  The calls of \<open>add_node\<close> that a run of \<open>build_graph\<close> makes, each with its
  generation and the state in which it starts.  The first call is for the start
  identifier at generation 0 on the new graph.  A call that expands \<open>pid\<close> (not visited,
  within the bound, resolved to a record with a name) runs the loop over the parent
  list: when the loop has done the entries \<open>before\<close> and stands at \<open>parent_id\<close>, it emits
  the edge and calls \<open>add_node\<close> for \<open>parent_id\<close> at the next generation.
\<close>

inductive makes_call ::
    "'a person_scheme list \<Rightarrow> int \<Rightarrow> string \<Rightarrow> string \<times> int \<times> build_state \<Rightarrow> bool"
  for people :: "'a person_scheme list" and max_generations :: int and start_id :: string
where
  first: "makes_call people max_generations start_id (start_id, 0, new_graph)"
| nested:
    "makes_call people max_generations start_id (pid, generation, st) \<Longrightarrow>
     pid \<notin> visited st \<Longrightarrow> generation \<le> max_generations \<Longrightarrow>
     get_person_by_id people pid = Some person \<Longrightarrow> full_name person = Some label \<Longrightarrow>
     get_parents person = before @ parent_id # rest \<Longrightarrow>
     add_parents people max_generations pid generation before
       (st\<lparr>visited := insert pid (visited st), graph := node pid label (graph st)\<rparr>) = Inr sa \<Longrightarrow>
     makes_call people max_generations start_id
       (parent_id, generation + 1, sa\<lparr>graph := edge parent_id pid (graph sa)\<rparr>)"

text \<open>The people of the example of the specification, and variations of them.\<close>

definition ann :: person where
  "ann = \<lparr>p_id = Some ''p1'', full_name = Some ''Ann'', parents = Some [''p2'']\<rparr>"

definition bob :: person where
  "bob = \<lparr>p_id = Some ''p2'', full_name = Some ''Bob'', parents = Some []\<rparr>"

definition bob_of_ann :: person where
  "bob_of_ann = \<lparr>p_id = Some ''p2'', full_name = Some ''Bob'', parents = Some [''p1'']\<rparr>"

definition bob_gx :: person where
  "bob_gx = \<lparr>p_id = Some ''p2'', full_name = Some ''Bob'', parents = Some [''gx'']\<rparr>"

definition nameless :: person where
  "nameless = \<lparr>p_id = Some ''p1'', full_name = None, parents = None\<rparr>"

definition ann_twice :: person where
  "ann_twice = \<lparr>p_id = Some ''p1'', full_name = Some ''Ann'', parents = Some [''p2'', ''p2'']\<rparr>"

definition event_a :: event where
  "event_a = \<lparr>date = Some ''1900-01-01'', title = Some ''A''\<rparr>"

definition event_b :: event where
  "event_b = \<lparr>date = Some ''1850-05-05'', title = Some ''B''\<rparr>"

definition event_c :: event where
  "event_c = \<lparr>date = None, title = Some ''C''\<rparr>"

definition event_d :: event where
  "event_d = \<lparr>date = Some ''1850-05-05'', title = Some ''D''\<rparr>"

text \<open>
  Outcomes of reading files: a directory in which \<^verbatim>\<open>people.json\<close> parses,
  \<^verbatim>\<open>events.json\<close> is not well-formed JSON and nothing else exists; and a file system
  whose files are not valid UTF-8.
\<close>

definition sample_files :: "string \<Rightarrow> error + person list" where
  "sample_files path =
     (if path = ''data/people.json'' then Inr [ann, bob]
      else if path = ''data/events.json''
        then Inl (JSONDecodeError ''Expecting value: line 1 column 1 (char 0)'')
      else Inl FileNotFoundError)"

definition undecodable_files :: "string \<Rightarrow> error + person list" where
  "undecodable_files path =
     Inl (UnicodeDecodeError ''utf-8 codec cannot decode byte 0xff in position 0'')"

section \<open>The lookup finds the first match\<close>

lemma ids_of_member: "p \<in> set people \<Longrightarrow> p_id p = Some i \<Longrightarrow> i \<in> set (ids_of people)"
  by (induction people) (auto split: option.splits)

lemma ids_of_iff: "i \<in> set (ids_of people) \<longleftrightarrow> (\<exists>p \<in> set people. p_id p = Some i)"
  by (induction people) (auto split: option.splits)

lemma get_person_by_id_None: "get_person_by_id people pid = None \<longleftrightarrow> pid \<notin> set (ids_of people)"
  by (induction people) (auto split: option.splits)

lemma get_person_by_id_first:
  "get_person_by_id people pid = Some p \<Longrightarrow>
   \<exists>pre post. people = pre @ p # post \<and> p_id p = Some pid \<and> (\<forall>q \<in> set pre. p_id q \<noteq> Some pid)"
proof (induction people)
  case Nil
  then show ?case by simp
next
  case (Cons x xs)
  show ?case
  proof (cases "p_id x = Some pid")
    case True
    with Cons.prems have "x = p" by simp
    with True have "x # xs = [] @ p # xs \<and> p_id p = Some pid \<and> (\<forall>q \<in> set []. p_id q \<noteq> Some pid)"
      by simp
    then show ?thesis by blast
  next
    case False
    with Cons.prems have "get_person_by_id xs pid = Some p" by simp
    from Cons.IH[OF this] obtain pre post where
      "xs = pre @ p # post" "p_id p = Some pid" "\<forall>q \<in> set pre. p_id q \<noteq> Some pid" by blast
    with False have "x # xs = (x # pre) @ p # post \<and> p_id p = Some pid \<and> (\<forall>q \<in> set (x # pre). p_id q \<noteq> Some pid)"
      by simp
    then show ?thesis by blast
  qed
qed

lemma get_person_by_id_unique:
  "unique_ids people \<Longrightarrow> p \<in> set people \<Longrightarrow> p_id p = Some pid \<Longrightarrow> get_person_by_id people pid = Some p"
proof (induction people)
  case Nil
  then show ?case by simp
next
  case (Cons x xs)
  show ?case
  proof (cases "p_id x = Some pid")
    case True
    have "p = x"
    proof (rule ccontr)
      assume "p \<noteq> x"
      with Cons.prems(2) have "p \<in> set xs" by simp
      then have "pid \<in> set (ids_of xs)" using Cons.prems(3) by (rule ids_of_member)
      with Cons.prems(1) True show False by (simp add: unique_ids_def)
    qed
    with True show ?thesis by simp
  next
    case False
    with Cons.prems have "p \<in> set xs" by auto
    moreover from Cons.prems(1) have "unique_ids xs" by (auto simp: unique_ids_def split: option.splits)
    ultimately show ?thesis using Cons.IH Cons.prems(3) False by simp
  qed
qed


section \<open>Invariants of the traversal\<close>

declare add_node.simps [simp del]

lemma add_node_unfold:
  "add_node people m pid g st =
     (if pid \<in> visited st \<or> g > m then Inr st
      else case get_person_by_id people pid of
          None \<Rightarrow> Inr (st\<lparr>visited := insert pid (visited st), graph := node pid pid (graph st)\<rparr>)
        | Some person \<Rightarrow>
            (case full_name person of
               None \<Rightarrow> Inl (KeyError ''full_name'')
             | Some label \<Rightarrow>
                 add_parents people m pid g (get_parents person)
                   (st\<lparr>visited := insert pid (visited st), graph := node pid label (graph st)\<rparr>)))"
  by (subst add_node.simps) (simp add: Let_def split: option.splits)

lemma add_node_cases:
  assumes "add_node people m pid g st = Inr st'"
  obtains (skip) "pid \<in> visited st \<or> g > m" "st' = st"
  | (dangling) "pid \<notin> visited st" "g \<le> m" "get_person_by_id people pid = None"
      "st' = st\<lparr>visited := insert pid (visited st), graph := node pid pid (graph st)\<rparr>"
  | (expand) person label where "pid \<notin> visited st" "g \<le> m"
      "get_person_by_id people pid = Some person" "full_name person = Some label"
      "add_parents people m pid g (get_parents person)
         (st\<lparr>visited := insert pid (visited st), graph := node pid label (graph st)\<rparr>) = Inr st'"
proof (cases "pid \<in> visited st \<or> g > m")
  case True
  with assms have "st' = st" by (simp add: add_node_unfold)
  with True show ?thesis by (rule skip)
next
  case False
  then have nv: "pid \<notin> visited st" and le: "g \<le> m" by auto
  show ?thesis
  proof (cases "get_person_by_id people pid")
    case None
    with assms False have "st' = st\<lparr>visited := insert pid (visited st), graph := node pid pid (graph st)\<rparr>"
      by (simp add: add_node_unfold)
    with nv le None show ?thesis by (rule dangling)
  next
    case (Some person)
    show ?thesis
    proof (cases "full_name person")
      case None
      with assms False Some show ?thesis by (simp add: add_node_unfold)
    next
      case (Some label)
      with assms False \<open>get_person_by_id people pid = Some person\<close>
      have "add_parents people m pid g (get_parents person)
         (st\<lparr>visited := insert pid (visited st), graph := node pid label (graph st)\<rparr>) = Inr st'"
        by (simp add: add_node_unfold)
      with nv le \<open>get_person_by_id people pid = Some person\<close> Some show ?thesis by (rule expand)
    qed
  qed
qed


lemma get_person_by_id_in_set: "get_person_by_id people pid = Some p \<Longrightarrow> p \<in> set people"
  by (induction people) (auto split: if_splits)

lemma add_node_grows:
  "add_node people m pid g st = Inr st' \<Longrightarrow>
     visited st \<subseteq> visited st' \<and> set (nodes (graph st)) \<subseteq> set (nodes (graph st'))
     \<and> set (edges (graph st)) \<subseteq> set (edges (graph st'))"
  "add_parents people m pid g ps st = Inr st' \<Longrightarrow>
     visited st \<subseteq> visited st' \<and> set (nodes (graph st)) \<subseteq> set (nodes (graph st'))
     \<and> set (edges (graph st)) \<subseteq> set (edges (graph st'))"
proof (induction people m pid g st and people m pid g ps st arbitrary: st' and st'
       rule: add_node_add_parents.induct)
  case (1 people m pid g st)
  from "1.prems" show ?case
  proof (cases rule: add_node_cases)
    case skip
    then show ?thesis by simp
  next
    case dangling
    then show ?thesis by (auto simp: node_def)
  next
    case (expand person label)
    have "\<not> (pid \<in> visited st \<or> m < g)" using expand(1,2) by simp
    from "1.IH"[OF this refl expand(3,4)] expand(5)
    have "visited (st\<lparr>visited := insert pid (visited st)\<rparr>) \<subseteq> visited st'"
      "set (nodes (graph (st\<lparr>visited := insert pid (visited st), graph := node pid label (graph st)\<rparr>))) \<subseteq> set (nodes (graph st'))"
      "set (edges (graph (st\<lparr>visited := insert pid (visited st), graph := node pid label (graph st)\<rparr>))) \<subseteq> set (edges (graph st'))"
      by simp_all
    then show ?thesis by (auto simp: node_def)
  qed
next
  case (2 people m pid g st)
  then show ?case by simp
next
  case (3 people m pid g parent_id rest st)
  from "3.prems" obtain sa where
    a: "add_node people m parent_id (g + 1) (st\<lparr>graph := edge parent_id pid (graph st)\<rparr>) = Inr sa"
    and b: "add_parents people m pid g rest sa = Inr st'"
    by (auto split: sum.splits)
  from "3.IH"(1)[OF a] "3.IH"(2)[OF a b]
  show ?case by (auto simp: edge_def)
qed


lemma add_parents_ConsE:
  assumes "add_parents people m pid g (parent_id # rest) st = Inr st'"
  obtains sa where
    "add_node people m parent_id (g + 1) (st\<lparr>graph := edge parent_id pid (graph st)\<rparr>) = Inr sa"
    "add_parents people m pid g rest sa = Inr st'"
  using assms by (auto split: sum.splits)

lemma wf_state_node:
  "wf_state people st \<Longrightarrow> pid \<notin> visited st \<Longrightarrow>
   get_person_by_id people pid = None \<longrightarrow> label = pid \<Longrightarrow>
   wf_state people (st\<lparr>visited := insert pid (visited st), graph := node pid label (graph st)\<rparr>)"
  by (auto simp: wf_state_def node_def)

lemma wf_state_edge:
  "wf_state people st \<Longrightarrow> pid \<in> visited st \<Longrightarrow>
   wf_state people (st\<lparr>graph := edge parent_id pid (graph st)\<rparr>)"
  by (auto simp: wf_state_def edge_def)

lemma add_node_wf_state:
  "add_node people m pid g st = Inr st' \<Longrightarrow> wf_state people st \<Longrightarrow> wf_state people st'"
  "add_parents people m pid g ps st = Inr st' \<Longrightarrow> wf_state people st \<Longrightarrow> pid \<in> visited st
     \<Longrightarrow> wf_state people st'"
proof (induction people m pid g st and people m pid g ps st arbitrary: st' and st'
       rule: add_node_add_parents.induct)
  case (1 people m pid g st)
  from "1.prems"(1) show ?case
  proof (cases rule: add_node_cases)
    case skip
    with "1.prems" show ?thesis by simp
  next
    case dangling
    with "1.prems"(2) show ?thesis by (simp add: wf_state_node)
  next
    case (expand person label)
    have nb: "\<not> (pid \<in> visited st \<or> m < g)" using expand(1,2) by simp
    have w: "wf_state people (st\<lparr>visited := insert pid (visited st), graph := node pid label (graph st)\<rparr>)"
      using "1.prems"(2) expand(1,3) by (simp add: wf_state_node)
    from "1.IH"[OF nb refl expand(3,4)] expand(5) w show ?thesis by simp
  qed
next
  case (2 people m pid g st)
  then show ?case by simp
next
  case (3 people m pid g parent_id rest st)
  from "3.prems"(1) obtain sa where
    a: "add_node people m parent_id (g + 1) (st\<lparr>graph := edge parent_id pid (graph st)\<rparr>) = Inr sa"
    and b: "add_parents people m pid g rest sa = Inr st'"
    by (rule add_parents_ConsE)
  have "wf_state people (st\<lparr>graph := edge parent_id pid (graph st)\<rparr>)"
    using "3.prems"(2,3) by (rule wf_state_edge)
  with "3.IH"(1)[OF a] have w: "wf_state people sa" by simp
  from add_node_grows(1)[OF a] "3.prems"(3) have "pid \<in> visited sa" by auto
  with "3.IH"(2)[OF a b w] show ?case .
qed


lemma add_node_distinct_edges:
  "add_node people m pid g st = Inr st' \<Longrightarrow> unique_parents people \<Longrightarrow> wf_state people st \<Longrightarrow>
     distinct (edges (graph st)) \<Longrightarrow>
     distinct (edges (graph st')) \<and>
     (\<forall>e \<in> set (edges (graph st')). e \<in> set (edges (graph st)) \<or> snd e \<notin> visited st)"
  "add_parents people m pid g ps st = Inr st' \<Longrightarrow> unique_parents people \<Longrightarrow> wf_state people st \<Longrightarrow>
     distinct (edges (graph st)) \<Longrightarrow> pid \<in> visited st \<Longrightarrow> distinct ps \<Longrightarrow>
     (\<forall>q \<in> set ps. (q, pid) \<notin> set (edges (graph st))) \<Longrightarrow>
     distinct (edges (graph st')) \<and>
     (\<forall>e \<in> set (edges (graph st')). e \<in> set (edges (graph st)) \<or> snd e \<notin> visited st
         \<or> (snd e = pid \<and> fst e \<in> set ps))"
proof (induction people m pid g st and people m pid g ps st arbitrary: st' and st'
       rule: add_node_add_parents.induct)
  case (1 people m pid g st)
  from "1.prems"(1) show ?case
  proof (cases rule: add_node_cases)
    case skip
    with "1.prems" show ?thesis by simp
  next
    case dangling
    with "1.prems" show ?thesis by (simp add: node_def)
  next
    case (expand person label)
    let ?st2 = "st\<lparr>visited := insert pid (visited st), graph := node pid label (graph st)\<rparr>"
    have nb: "\<not> (pid \<in> visited st \<or> m < g)" using expand(1,2) by simp
    have w: "wf_state people ?st2"
      using "1.prems"(3) expand(1,3) by (simp add: wf_state_node)
    have e2: "edges (graph ?st2) = edges (graph st)" by (simp add: node_def)
    have d2: "distinct (edges (graph ?st2))" using "1.prems"(4) e2 by simp
    have v2: "pid \<in> visited ?st2" by simp
    have dp: "distinct (get_parents person)"
      using "1.prems"(2) get_person_by_id_in_set[OF expand(3)] by (simp add: unique_parents_def list_all_iff)
    have "snd ` set (edges (graph st)) \<subseteq> visited st"
      using "1.prems"(3) unfolding wf_state_def by blast
    with expand(1) have fresh: "\<forall>q \<in> set (get_parents person). (q, pid) \<notin> set (edges (graph ?st2))"
      unfolding e2 by force
    from "1.IH"[OF nb refl expand(3,4)] expand(5) "1.prems"(2) w d2 v2 dp fresh
    have r: "distinct (edges (graph st')) \<and>
       (\<forall>e \<in> set (edges (graph st')). e \<in> set (edges (graph ?st2)) \<or> snd e \<notin> visited ?st2
         \<or> (snd e = pid \<and> fst e \<in> set (get_parents person)))"
      by simp
    then have "\<forall>e \<in> set (edges (graph st')). e \<in> set (edges (graph st)) \<or> snd e \<notin> visited st"
      unfolding e2 using expand(1) by auto
    with r show ?thesis by simp
  qed
next
  case (2 people m pid g st)
  then show ?case by simp
next
  case (3 people m pid g parent_id rest st)
  let ?st1 = "st\<lparr>graph := edge parent_id pid (graph st)\<rparr>"
  from "3.prems"(1) obtain sa where
    a: "add_node people m parent_id (g + 1) ?st1 = Inr sa"
    and b: "add_parents people m pid g rest sa = Inr st'"
    by (rule add_parents_ConsE)
  have w1: "wf_state people ?st1"
    using "3.prems"(3,5) by (rule wf_state_edge)
  have e1: "edges (graph ?st1) = edges (graph st) @ [(parent_id, pid)]" by (simp add: edge_def)
  have v1: "visited ?st1 = visited st" by simp
  have d1: "distinct (edges (graph ?st1))"
    unfolding e1 using "3.prems"(4,7) by simp
  from "3.IH"(1)[OF a "3.prems"(2) w1 d1]
  have da: "distinct (edges (graph sa))"
    and na: "\<forall>e \<in> set (edges (graph sa)). e \<in> set (edges (graph ?st1)) \<or> snd e \<notin> visited st"
    unfolding v1 by simp_all
  have wa: "wf_state people sa" using add_node_wf_state(1)[OF a w1] .
  have va: "visited st \<subseteq> visited sa" using add_node_grows(1)[OF a] by simp
  then have pa: "pid \<in> visited sa" using "3.prems"(5) by auto
  have dr: "distinct rest" using "3.prems"(6) by simp
  have fa: "\<forall>q \<in> set rest. (q, pid) \<notin> set (edges (graph sa))"
  proof
    fix q assume q: "q \<in> set rest"
    show "(q, pid) \<notin> set (edges (graph sa))"
    proof
      assume "(q, pid) \<in> set (edges (graph sa))"
      with na have "(q, pid) \<in> set (edges (graph ?st1)) \<or> pid \<notin> visited st" by force
      with "3.prems"(5) have "(q, pid) \<in> set (edges (graph st)) \<or> q = parent_id"
        unfolding e1 by auto
      with q "3.prems"(6,7) show False by auto
    qed
  qed
  from "3.IH"(2)[OF a b "3.prems"(2) wa da pa dr fa]
  have ds: "distinct (edges (graph st'))"
    and ns: "\<forall>e \<in> set (edges (graph st')). e \<in> set (edges (graph sa)) \<or> snd e \<notin> visited sa
         \<or> (snd e = pid \<and> fst e \<in> set rest)"
    by simp_all
  have "\<forall>e \<in> set (edges (graph st')). e \<in> set (edges (graph st)) \<or> snd e \<notin> visited st
         \<or> (snd e = pid \<and> fst e \<in> set (parent_id # rest))"
  proof
    fix e assume "e \<in> set (edges (graph st'))"
    with ns consider "e \<in> set (edges (graph sa))" | "snd e \<notin> visited sa"
      | "snd e = pid \<and> fst e \<in> set rest" by blast
    then show "e \<in> set (edges (graph st)) \<or> snd e \<notin> visited st
         \<or> (snd e = pid \<and> fst e \<in> set (parent_id # rest))"
    proof cases
      case 1
      with na have "e \<in> set (edges (graph ?st1)) \<or> snd e \<notin> visited st" by blast
      then show ?thesis unfolding e1 by auto
    next
      case 2
      with va show ?thesis by auto
    next
      case 3
      then show ?thesis by simp
    qed
  qed
  with ds show ?case by simp
qed


lemma add_parents_dangling:
  "add_parents people m pid g ps st = Inr st' \<Longrightarrow> wf_state people st \<Longrightarrow> pid \<in> visited st \<Longrightarrow>
   d \<in> set ps \<Longrightarrow> get_person_by_id people d = None \<Longrightarrow> g + 1 \<le> m \<Longrightarrow>
   (d, d) \<in> set (nodes (graph st')) \<and> (d, pid) \<in> set (edges (graph st'))"
proof (induction ps arbitrary: st)
  case Nil
  then show ?case by simp
next
  case (Cons parent_id rest)
  let ?st1 = "st\<lparr>graph := edge parent_id pid (graph st)\<rparr>"
  from Cons.prems(1) obtain sa where
    a: "add_node people m parent_id (g + 1) ?st1 = Inr sa"
    and b: "add_parents people m pid g rest sa = Inr st'"
    by (rule add_parents_ConsE)
  have w1: "wf_state people ?st1" using Cons.prems(2,3) by (rule wf_state_edge)
  have wa: "wf_state people sa" using add_node_wf_state(1)[OF a w1] .
  have pa: "pid \<in> visited sa" using add_node_grows(1)[OF a] Cons.prems(3) by auto
  show ?case
  proof (cases "d = parent_id")
    case True
    have "(d, pid) \<in> set (edges (graph ?st1))" using True by (simp add: edge_def)
    then have e: "(d, pid) \<in> set (edges (graph st'))"
      using add_node_grows(1)[OF a] add_node_grows(2)[OF b] by blast
    have "(d, d) \<in> set (nodes (graph sa))"
      using a
    proof (cases rule: add_node_cases)
      case skip
      with Cons.prems(6) True have "d \<in> visited ?st1" by simp
      with w1 obtain l where l: "(d, l) \<in> set (nodes (graph ?st1))"
        unfolding wf_state_def by force
      with w1 Cons.prems(5) have "l = d" unfolding wf_state_def by blast
      with l skip show ?thesis by simp
    next
      case dangling
      then show ?thesis using True by (simp add: node_def)
    next
      case (expand person label)
      with Cons.prems(5) True show ?thesis by simp
    qed
    then have "(d, d) \<in> set (nodes (graph st'))"
      using add_node_grows(2)[OF b] by blast
    with e show ?thesis by simp
  next
    case False
    with Cons.prems(4) have "d \<in> set rest" by simp
    from Cons.IH[OF b wa pa this Cons.prems(5,6)] show ?thesis .
  qed
qed

lemma add_node_named_total:
  "all_named people \<Longrightarrow> \<exists>st'. add_node people m pid g st = Inr st'"
  "all_named people \<Longrightarrow> \<exists>st'. add_parents people m pid g ps st = Inr st'"
proof (induction people m pid g st and people m pid g ps st
       rule: add_node_add_parents.induct)
  case (1 people m pid g st)
  show ?case
  proof (cases "pid \<in> visited st \<or> m < g")
    case True
    then show ?thesis by (simp add: add_node_unfold)
  next
    case nb: False
    show ?thesis
    proof (cases "get_person_by_id people pid")
      case None
      with nb show ?thesis by (simp add: add_node_unfold)
    next
      case (Some person)
      then have "person \<in> set people" by (rule get_person_by_id_in_set)
      with "1.prems" obtain label where l: "full_name person = Some label"
        by (auto simp: all_named_def list_all_iff)
      from "1.IH"[OF nb refl Some l "1.prems"] nb Some l
      show ?thesis by (simp add: add_node_unfold)
    qed
  qed
next
  case (2 people m pid g st)
  then show ?case by simp
next
  case (3 people m pid g parent_id rest st)
  from "3.IH"(1)[OF "3.prems"] obtain sa where
    a: "add_node people m parent_id (g + 1) (st\<lparr>graph := edge parent_id pid (graph st)\<rparr>) = Inr sa"
    by blast
  from "3.IH"(2)[OF a "3.prems"] a show ?case by simp
qed

lemma add_node_error:
  "add_node people m pid g st = Inl e \<Longrightarrow> e = KeyError ''full_name''"
  "add_parents people m pid g ps st = Inl e \<Longrightarrow> e = KeyError ''full_name''"
proof (induction people m pid g st and people m pid g ps st
       rule: add_node_add_parents.induct)
  case (1 people m pid g st)
  show ?case
  proof (cases "pid \<in> visited st \<or> m < g")
    case True
    with "1.prems" show ?thesis by (simp add: add_node_unfold)
  next
    case nb: False
    show ?thesis
    proof (cases "get_person_by_id people pid")
      case None
      with nb "1.prems" show ?thesis by (simp add: add_node_unfold)
    next
      case (Some person)
      show ?thesis
      proof (cases "full_name person")
        case None
        with nb Some "1.prems" show ?thesis by (simp add: add_node_unfold)
      next
        case l: (Some label)
        from "1.IH"[OF nb refl Some l] nb Some l "1.prems"
        show ?thesis by (simp add: add_node_unfold)
      qed
    qed
  qed
next
  case (2 people m pid g st)
  then show ?case by simp
next
  case (3 people m pid g parent_id rest st)
  show ?case
  proof (cases "add_node people m parent_id (g + 1) (st\<lparr>graph := edge parent_id pid (graph st)\<rparr>)")
    case (Inl e')
    with "3.prems" have "e' = e" by simp
    with "3.IH"(1) Inl show ?thesis by simp
  next
    case (Inr sa)
    with "3.prems" have "add_parents people m pid g rest sa = Inl e" by simp
    with "3.IH"(2)[OF Inr] show ?thesis by simp
  qed
qed

lemma wf_state_new_graph: "wf_state people new_graph"
  by (simp add: wf_state_def new_graph_def)

lemma build_graph_Inr:
  "build_graph people start_id m = Inr g \<longleftrightarrow>
     (\<exists>st. add_node people m start_id 0 new_graph = Inr st \<and> g = graph st)"
  by (auto simp: build_graph_def new_graph_def split: sum.splits)

lemma build_graph_Inl:
  assumes "build_graph people start_id m = Inl e"
  shows "e = KeyError ''full_name'' \<and> \<not> all_named people"
proof -
  from assms have a: "add_node people m start_id 0 new_graph = Inl e"
    by (auto simp: build_graph_def new_graph_def split: sum.splits)
  then have "e = KeyError ''full_name''" by (rule add_node_error)
  moreover have "\<not> all_named people"
    using add_node_named_total(1)[of people m start_id 0 new_graph] a by auto
  ultimately show ?thesis by simp
qed

text \<open>Every call that a successful run makes returns, and what it built stays in the graph.\<close>

lemma add_parents_append:
  "add_parents people m pid g (xs @ ys) st =
     (case add_parents people m pid g xs st of
        Inl e \<Rightarrow> Inl e
      | Inr sa \<Rightarrow> add_parents people m pid g ys sa)"
  by (induction xs arbitrary: st) (auto split: sum.splits)

lemma add_parents_edges:
  "add_parents people m pid g ps st = Inr st' \<Longrightarrow> d \<in> set ps \<Longrightarrow>
   (d, pid) \<in> set (edges (graph st'))"
proof (induction ps arbitrary: st)
  case Nil
  then show ?case by simp
next
  case (Cons parent_id rest)
  from Cons.prems(1) obtain sa where
    a: "add_node people m parent_id (g + 1) (st\<lparr>graph := edge parent_id pid (graph st)\<rparr>) = Inr sa"
    and b: "add_parents people m pid g rest sa = Inr st'"
    by (rule add_parents_ConsE)
  show ?case
  proof (cases "d = parent_id")
    case True
    then have "(d, pid) \<in> set (edges (graph (st\<lparr>graph := edge parent_id pid (graph st)\<rparr>)))"
      by (simp add: edge_def)
    with add_node_grows(1)[OF a] add_node_grows(2)[OF b] show ?thesis by blast
  next
    case False
    with Cons.prems(2) have "d \<in> set rest" by simp
    from Cons.IH[OF b this] show ?thesis .
  qed
qed

lemma add_node_new_nodes_edges:
  "add_node people m pid g st = Inr st' \<Longrightarrow>
     \<forall>(c, l) \<in> set (nodes (graph st')) - set (nodes (graph st)).
       \<forall>p. get_person_by_id people c = Some p \<longrightarrow>
         (\<forall>d \<in> set (get_parents p). (d, c) \<in> set (edges (graph st')))"
  "add_parents people m pid g ps st = Inr st' \<Longrightarrow>
     \<forall>(c, l) \<in> set (nodes (graph st')) - set (nodes (graph st)).
       \<forall>p. get_person_by_id people c = Some p \<longrightarrow>
         (\<forall>d \<in> set (get_parents p). (d, c) \<in> set (edges (graph st')))"
proof (induction people m pid g st and people m pid g ps st arbitrary: st' and st'
       rule: add_node_add_parents.induct)
  case (1 people m pid g st)
  from "1.prems"(1) show ?case
  proof (cases rule: add_node_cases)
    case skip
    then show ?thesis by simp
  next
    case dangling
    then show ?thesis by (auto simp: node_def)
  next
    case (expand person label)
    let ?st2 = "st\<lparr>visited := insert pid (visited st), graph := node pid label (graph st)\<rparr>"
    have nb: "\<not> (pid \<in> visited st \<or> m < g)" using expand(1,2) by simp
    from "1.IH"[OF nb refl expand(3,4)] expand(5)
    have ih: "\<forall>(c, l) \<in> set (nodes (graph st')) - set (nodes (graph ?st2)).
       \<forall>p. get_person_by_id people c = Some p \<longrightarrow>
         (\<forall>d \<in> set (get_parents p). (d, c) \<in> set (edges (graph st')))"
      by simp
    have own: "\<forall>d \<in> set (get_parents person). (d, pid) \<in> set (edges (graph st'))"
      using add_parents_edges[OF expand(5)] by blast
    have n2: "set (nodes (graph ?st2)) = insert (pid, label) (set (nodes (graph st)))"
      by (simp add: node_def)
    show ?thesis
    proof (intro ballI, clarify)
      fix c l p d
      assume cl: "(c, l) \<in> set (nodes (graph st'))" "(c, l) \<notin> set (nodes (graph st))"
        and p: "get_person_by_id people c = Some p" and d: "d \<in> set (get_parents p)"
      show "(d, c) \<in> set (edges (graph st'))"
      proof (cases "(c, l) = (pid, label)")
        case True
        with p expand(3) have "p = person" by simp
        with own d True show ?thesis by simp
      next
        case False
        with cl n2 have "(c, l) \<in> set (nodes (graph st')) - set (nodes (graph ?st2))" by simp
        with ih p d show ?thesis by blast
      qed
    qed
  qed
next
  case (2 people m pid g st)
  then show ?case by simp
next
  case (3 people m pid g parent_id rest st)
  let ?st1 = "st\<lparr>graph := edge parent_id pid (graph st)\<rparr>"
  from "3.prems"(1) obtain sa where
    a: "add_node people m parent_id (g + 1) ?st1 = Inr sa"
    and b: "add_parents people m pid g rest sa = Inr st'"
    by (rule add_parents_ConsE)
  have n1: "nodes (graph ?st1) = nodes (graph st)" by (simp add: edge_def)
  from "3.IH"(1)[OF a]
  have iha: "\<forall>(c, l) \<in> set (nodes (graph sa)) - set (nodes (graph st)).
       \<forall>p. get_person_by_id people c = Some p \<longrightarrow>
         (\<forall>d \<in> set (get_parents p). (d, c) \<in> set (edges (graph sa)))"
    unfolding n1 .
  from "3.IH"(2)[OF a b]
  have ihb: "\<forall>(c, l) \<in> set (nodes (graph st')) - set (nodes (graph sa)).
       \<forall>p. get_person_by_id people c = Some p \<longrightarrow>
         (\<forall>d \<in> set (get_parents p). (d, c) \<in> set (edges (graph st')))" .
  have gb: "set (edges (graph sa)) \<subseteq> set (edges (graph st'))"
    using add_node_grows(2)[OF b] by simp
  show ?case
  proof (intro ballI, clarify)
    fix c l p d
    assume cl: "(c, l) \<in> set (nodes (graph st'))" "(c, l) \<notin> set (nodes (graph st))"
      and p: "get_person_by_id people c = Some p" and d: "d \<in> set (get_parents p)"
    show "(d, c) \<in> set (edges (graph st'))"
    proof (cases "(c, l) \<in> set (nodes (graph sa))")
      case True
      with cl(2) iha p d have "(d, c) \<in> set (edges (graph sa))" by blast
      with gb show ?thesis by blast
    next
      case False
      with cl(1) ihb p d show ?thesis by blast
    qed
  qed
qed


lemma makes_call_returns:
  assumes run: "add_node people m start_id 0 new_graph = Inr final"
    and call: "makes_call people m start_id (pid, k, st)"
  shows "wf_state people st \<and>
     (\<exists>st'. add_node people m pid k st = Inr st'
        \<and> set (nodes (graph st')) \<subseteq> set (nodes (graph final))
        \<and> set (edges (graph st')) \<subseteq> set (edges (graph final)))"
  using call
proof (induction "(pid, k, st)" arbitrary: pid k st rule: makes_call.induct)
  case first
  with run show ?case by (auto simp: wf_state_new_graph)
next
  case (nested pid g st person label before parent_id rest sa)
  let ?st2 = "st\<lparr>visited := insert pid (visited st), graph := node pid label (graph st)\<rparr>"
  let ?sq = "sa\<lparr>graph := edge parent_id pid (graph sa)\<rparr>"
  from nested.hyps(2) obtain st' where w: "wf_state people st"
    and r: "add_node people m pid g st = Inr st'"
    and sn: "set (nodes (graph st')) \<subseteq> set (nodes (graph final))"
    and se: "set (edges (graph st')) \<subseteq> set (edges (graph final))"
    by blast
  from r nested.hyps(3,4,5,6)
  have loop: "add_parents people m pid g (get_parents person) ?st2 = Inr st'"
    by (simp add: add_node_unfold)
  then have "add_parents people m pid g (parent_id # rest) sa = Inr st'"
    unfolding nested.hyps(7) add_parents_append using nested.hyps(8) by simp
  then obtain sb where
    a: "add_node people m parent_id (g + 1) ?sq = Inr sb"
    and b: "add_parents people m pid g rest sb = Inr st'"
    by (rule add_parents_ConsE)
  have w2: "wf_state people ?st2"
    using w nested.hyps(3,5) by (simp add: wf_state_node)
  have v2: "pid \<in> visited ?st2" by simp
  have wa: "wf_state people sa" using add_node_wf_state(2)[OF nested.hyps(8) w2 v2] .
  have va: "pid \<in> visited sa" using add_node_grows(2)[OF nested.hyps(8)] v2 by blast
  have wq: "wf_state people ?sq" using wa va by (rule wf_state_edge)
  from add_node_grows(2)[OF b] sn se
  have "set (nodes (graph sb)) \<subseteq> set (nodes (graph final))"
    and "set (edges (graph sb)) \<subseteq> set (edges (graph final))" by blast+
  with a wq show ?case by blast
qed

section \<open>The claims about the tree builder\<close>

text \<open>
  C1.  The claim: with \<open>max_generations = 0\<close> the graph has exactly one node and no edge,
  whatever the parent list of the start person.  The theorem evaluates the code on the
  people of the specification's example: the start person \<^verbatim>\<open>p1\<close> lists the parent
  \<^verbatim>\<open>p2\<close>, and the loop emits the edge from \<^verbatim>\<open>p2\<close> to \<^verbatim>\<open>p1\<close> before the call for
  \<^verbatim>\<open>p2\<close> tests the generation bound.  The graph has one node and one edge.
\<close>

theorem build_graph_generation_zero_edge:
  "build_graph [ann, bob] ''p1'' 0 =
     Inr \<lparr>nodes = [(''p1'', ''Ann'')], edges = [(''p2'', ''p1'')]\<rparr>"
  by (simp add: build_graph_def new_graph_def add_node_unfold ann_def bob_def get_parents_def
        node_def edge_def)

text \<open>
  C2.  \<open>build_graph\<close> terminates on every collection, start identifier and generation
  bound, cyclic parent relations included.  The first conjunct is the domain predicate
  of the recursion of \<open>add_node\<close> and its loop: the calls below the initial call are
  well-founded, so the call returns.  The second conjunct is what it returns: either the
  \<^verbatim>\<open>KeyError\<close> of a record without \<^verbatim>\<open>full_name\<close>, or a graph in which every
  identifier has at most one node, that is, was expanded at most once.
\<close>

theorem build_graph_terminates:
  "add_node_add_parents_dom (Inl (people, max_generations, start_id, 0, new_graph)) \<and>
   (case build_graph people start_id max_generations of
      Inl e \<Rightarrow> e = KeyError ''full_name'' \<and> \<not> all_named people
    | Inr g \<Rightarrow> distinct (map fst (nodes g)))"
proof -
  have "All (add_node_add_parents_dom ::
      ('a person_scheme list \<times> int \<times> string \<times> int \<times> build_state) +
      ('a person_scheme list \<times> int \<times> string \<times> int \<times> string list \<times> build_state) \<Rightarrow> bool)"
    by (rule "add_node_add_parents.termination" [where R = "measures [call_rank, call_todo]"])
       (auto simp: call_rank_def call_todo_def)
  then have dom: "add_node_add_parents_dom (Inl (people, max_generations, start_id, 0, new_graph))"
    by blast
  have "case build_graph people start_id max_generations of
      Inl e \<Rightarrow> e = KeyError ''full_name'' \<and> \<not> all_named people
    | Inr g \<Rightarrow> distinct (map fst (nodes g))"
  proof (cases "build_graph people start_id max_generations")
    case (Inl e)
    then show ?thesis using build_graph_Inl[OF Inl] by simp
  next
    case (Inr g)
    then obtain st where a: "add_node people max_generations start_id 0 new_graph = Inr st"
      and g: "g = graph st" by (auto simp: build_graph_Inr)
    from add_node_wf_state(1)[OF a wf_state_new_graph] g
    have "distinct (map fst (nodes g))" unfolding wf_state_def by blast
    with Inr show ?thesis by simp
  qed
  with dom show ?thesis ..
qed

theorem build_graph_terminates_witness:
  "build_graph [ann, bob_of_ann] ''p1'' 20 =
     Inr \<lparr>nodes = [(''p1'', ''Ann''), (''p2'', ''Bob'')], edges = [(''p2'', ''p1''), (''p1'', ''p2'')]\<rparr>
   \<and> distinct (map fst (nodes \<lparr>nodes = [(''p1'', ''Ann''), (''p2'', ''Bob'')],
                               edges = [(''p2'', ''p1''), (''p1'', ''p2'')]\<rparr>))"
proof -
  have e: "build_graph [ann, bob_of_ann] ''p1'' 20 =
     Inr \<lparr>nodes = [(''p1'', ''Ann''), (''p2'', ''Bob'')], edges = [(''p2'', ''p1''), (''p1'', ''p2'')]\<rparr>"
    by (simp add: build_graph_def new_graph_def add_node_unfold ann_def bob_of_ann_def
          get_parents_def node_def edge_def)
  from build_graph_terminates [of "[ann, bob_of_ann]" 20 "''p1''"] e show ?thesis
    by simp
qed

text \<open>
  C7, as stated, at the generation bound.  The start person \<^verbatim>\<open>p1\<close> lists the parent
  \<^verbatim>\<open>p2\<close>, which no record has.  With \<open>max_generations = 0\<close> the graph has no node for
  \<^verbatim>\<open>p2\<close>: the call for \<^verbatim>\<open>p2\<close> is at generation 1 and returns at once.
\<close>

theorem build_graph_dangling_parent_dropped_at_bound:
  "get_person_by_id [ann] ''p1'' = Some ann \<and> get_parents ann = [''p2'']
   \<and> get_person_by_id [ann] ''p2'' = None
   \<and> build_graph [ann] ''p1'' 0 = Inr \<lparr>nodes = [(''p1'', ''Ann'')], edges = [(''p2'', ''p1'')]\<rparr>
   \<and> ''p2'' \<notin> fst ` set (nodes \<lparr>nodes = [(''p1'', ''Ann'')], edges = [(''p2'', ''p1'')]\<rparr>)"
  by (simp add: build_graph_def new_graph_def add_node_unfold ann_def get_parents_def
        node_def edge_def)

text \<open>
  C7, amended.  Every person with a node in the graph built has the edge from each
  identifier of its parent list, dangling or not, to it.  Every person that the run
  expands at a generation below the bound (the run makes the call of \<open>add_node\<close> for it at
  a generation \<open>k < max_generations\<close> while it is not visited), the start person at
  generation 0 included, has for each identifier \<open>d\<close> of its parent list that no record
  has a node for \<open>d\<close> labelled by \<open>d\<close> itself, and the edge from \<open>d\<close> to it.  Every node
  of an identifier of no record is labelled by that identifier.  The only other outcome
  is the \<^verbatim>\<open>KeyError\<close> of a record without \<^verbatim>\<open>full_name\<close>.
\<close>

theorem build_graph_dangling_parent:
  "case build_graph people start_id max_generations of
      Inl e \<Rightarrow> e = KeyError ''full_name'' \<and> \<not> all_named people
    | Inr g \<Rightarrow>
        (\<forall>(c, l) \<in> set (nodes g). \<forall>p. get_person_by_id people c = Some p \<longrightarrow>
           (\<forall>d \<in> set (get_parents p). (d, c) \<in> set (edges g)))
      \<and> (\<forall>pid k st p d.
            makes_call people max_generations start_id (pid, k, st) \<and> pid \<notin> visited st
            \<and> k < max_generations \<and> get_person_by_id people pid = Some p
            \<and> d \<in> set (get_parents p) \<and> get_person_by_id people d = None \<longrightarrow>
            (d, d) \<in> set (nodes g) \<and> (d, pid) \<in> set (edges g))
      \<and> (\<forall>(i, l) \<in> set (nodes g). get_person_by_id people i = None \<longrightarrow> l = i)"
proof (cases "build_graph people start_id max_generations")
  case (Inl e)
  then show ?thesis using build_graph_Inl[OF Inl] by simp
next
  case (Inr g)
  then obtain final where run: "add_node people max_generations start_id 0 new_graph = Inr final"
    and g: "g = graph final" by (auto simp: build_graph_Inr)
  have w: "wf_state people final" using add_node_wf_state(1)[OF run wf_state_new_graph] .
  then have lab: "\<forall>(i, l) \<in> set (nodes g). get_person_by_id people i = None \<longrightarrow> l = i"
    unfolding wf_state_def g by blast
  have "nodes (graph new_graph) = []" by (simp add: new_graph_def)
  with add_node_new_nodes_edges(1)[OF run]
  have every: "\<forall>(c, l) \<in> set (nodes g). \<forall>p. get_person_by_id people c = Some p \<longrightarrow>
           (\<forall>d \<in> set (get_parents p). (d, c) \<in> set (edges g))"
    unfolding g by simp
  have within: "(d, d) \<in> set (nodes g) \<and> (d, pid) \<in> set (edges g)"
    if call: "makes_call people max_generations start_id (pid, k, st)"
      and nv: "pid \<notin> visited st" and k: "k < max_generations"
      and p: "get_person_by_id people pid = Some p"
      and d: "d \<in> set (get_parents p)" and dang: "get_person_by_id people d = None"
    for pid k st p d
  proof -
    from makes_call_returns[OF run call] obtain st' where ws: "wf_state people st"
      and r: "add_node people max_generations pid k st = Inr st'"
      and sn: "set (nodes (graph st')) \<subseteq> set (nodes g)"
      and se: "set (edges (graph st')) \<subseteq> set (edges g)"
      unfolding g by blast
    from r have "(d, d) \<in> set (nodes (graph st')) \<and> (d, pid) \<in> set (edges (graph st'))"
    proof (cases rule: add_node_cases)
      case skip
      with nv k show ?thesis by simp
    next
      case dangling
      with p show ?thesis by simp
    next
      case (expand person label)
      let ?st2 = "st\<lparr>visited := insert pid (visited st), graph := node pid label (graph st)\<rparr>"
      from expand(3) p have pp: "person = p" by simp
      have w2: "wf_state people ?st2" using ws expand(1,3) by (simp add: wf_state_node)
      have v2: "pid \<in> visited ?st2" by simp
      have dd: "d \<in> set (get_parents person)" using d pp by simp
      have "k + 1 \<le> max_generations" using k by simp
      from add_parents_dangling[OF expand(5) w2 v2 dd dang this] show ?thesis .
    qed
    with sn se show ?thesis by blast
  qed
  from every within lab Inr show ?thesis by simp blast
qed

theorem build_graph_dangling_parent_witness:
  "makes_call [ann, bob_gx] 5 ''p1''
     (''p2'', 1, \<lparr>visited = {''p1''},
                   graph = \<lparr>nodes = [(''p1'', ''Ann'')], edges = [(''p2'', ''p1'')]\<rparr>\<rparr>)
   \<and> ''p2'' \<notin> visited \<lparr>visited = {''p1''},
                   graph = \<lparr>nodes = [(''p1'', ''Ann'')], edges = [(''p2'', ''p1'')]\<rparr>\<rparr>
   \<and> (1::int) < 5 \<and> get_person_by_id [ann, bob_gx] ''p2'' = Some bob_gx
   \<and> ''gx'' \<in> set (get_parents bob_gx) \<and> get_person_by_id [ann, bob_gx] ''gx'' = None
   \<and> build_graph [ann, bob_gx] ''p1'' 5 =
       Inr \<lparr>nodes = [(''p1'', ''Ann''), (''p2'', ''Bob''), (''gx'', ''gx'')],
            edges = [(''p2'', ''p1''), (''gx'', ''p2'')]\<rparr>
   \<and> (''gx'', ''gx'') \<in> set (nodes \<lparr>nodes = [(''p1'', ''Ann''), (''p2'', ''Bob''), (''gx'', ''gx'')],
            edges = [(''p2'', ''p1''), (''gx'', ''p2'')]\<rparr>)
   \<and> (''gx'', ''p2'') \<in> set (edges \<lparr>nodes = [(''p1'', ''Ann''), (''p2'', ''Bob''), (''gx'', ''gx'')],
            edges = [(''p2'', ''p1''), (''gx'', ''p2'')]\<rparr>)"
proof -
  let ?st = "\<lparr>visited = {''p1''},
                graph = \<lparr>nodes = [(''p1'', ''Ann'')], edges = [(''p2'', ''p1'')]\<rparr>\<rparr>"
  let ?g = "\<lparr>nodes = [(''p1'', ''Ann''), (''p2'', ''Bob''), (''gx'', ''gx'')],
            edges = [(''p2'', ''p1''), (''gx'', ''p2'')]\<rparr>"
  have "makes_call [ann, bob_gx] 5 ''p1'' (''p2'', 0 + 1,
      (new_graph\<lparr>visited := insert ''p1'' (visited new_graph),
                 graph := node ''p1'' ''Ann'' (graph new_graph)\<rparr>)
        \<lparr>graph := edge ''p2'' ''p1'' (graph (new_graph\<lparr>visited := insert ''p1'' (visited new_graph),
                 graph := node ''p1'' ''Ann'' (graph new_graph)\<rparr>))\<rparr>)"
  proof (rule makes_call.nested [where person = ann and before = "[]" and rest = "[]"])
    show "makes_call [ann, bob_gx] 5 ''p1'' (''p1'', 0, new_graph)" by (rule makes_call.first)
    show "''p1'' \<notin> visited new_graph" by (simp add: new_graph_def)
    show "(0::int) \<le> 5" by simp
    show "get_person_by_id [ann, bob_gx] ''p1'' = Some ann" by (simp add: ann_def)
    show "full_name ann = Some ''Ann''" by (simp add: ann_def)
    show "get_parents ann = [] @ ''p2'' # []" by (simp add: ann_def get_parents_def)
    show "add_parents [ann, bob_gx] 5 ''p1'' 0 []
        (new_graph\<lparr>visited := insert ''p1'' (visited new_graph),
                   graph := node ''p1'' ''Ann'' (graph new_graph)\<rparr>) =
      Inr (new_graph\<lparr>visited := insert ''p1'' (visited new_graph),
                   graph := node ''p1'' ''Ann'' (graph new_graph)\<rparr>)" by simp
  qed
  then have c: "makes_call [ann, bob_gx] 5 ''p1'' (''p2'', 1, ?st)"
    by (simp add: new_graph_def node_def edge_def)
  have nv: "''p2'' \<notin> visited ?st" by simp
  have k: "(1::int) < 5" by simp
  have p: "get_person_by_id [ann, bob_gx] ''p2'' = Some bob_gx" by (simp add: ann_def bob_gx_def)
  have d: "''gx'' \<in> set (get_parents bob_gx)" by (simp add: bob_gx_def get_parents_def)
  have dang: "get_person_by_id [ann, bob_gx] ''gx'' = None" by (simp add: ann_def bob_gx_def)
  have e: "build_graph [ann, bob_gx] ''p1'' 5 = Inr ?g"
    by (simp add: build_graph_def new_graph_def add_node_unfold ann_def bob_gx_def
          get_parents_def node_def edge_def)
  note run = build_graph_dangling_parent
      [where people = "[ann, bob_gx]" and start_id = "''p1''" and max_generations = 5,
       unfolded e sum.case]
  have r: "(''gx'', ''gx'') \<in> set (nodes ?g) \<and> (''gx'', ''p2'') \<in> set (edges ?g)"
  proof (rule run [THEN conjunct2, THEN conjunct1, rule_format])
    from c nv k p d dang
    show "makes_call [ann, bob_gx] 5 ''p1'' (''p2'', 1, ?st) \<and> ''p2'' \<notin> visited ?st
       \<and> (1::int) < 5 \<and> get_person_by_id [ann, bob_gx] ''p2'' = Some bob_gx
       \<and> ''gx'' \<in> set (get_parents bob_gx) \<and> get_person_by_id [ann, bob_gx] ''gx'' = None"
      by blast
  qed
  from c nv k p d dang e r show ?thesis by blast
qed

text \<open>
  C9, as stated.  A parent list that names \<^verbatim>\<open>p2\<close> twice gives the edge from \<^verbatim>\<open>p2\<close> to
  \<^verbatim>\<open>p1\<close> twice: the loop calls \<^verbatim>\<open>graph.edge\<close> once for each entry of the list.
\<close>

theorem build_graph_duplicate_edge:
  "build_graph [ann_twice] ''p1'' 1 =
     Inr \<lparr>nodes = [(''p1'', ''Ann''), (''p2'', ''p2'')],
          edges = [(''p2'', ''p1''), (''p2'', ''p1'')]\<rparr>
   \<and> \<not> distinct (edges \<lparr>nodes = [(''p1'', ''Ann''), (''p2'', ''p2'')],
                           edges = [(''p2'', ''p1''), (''p2'', ''p1'')]\<rparr>)"
  by (simp add: build_graph_def new_graph_def add_node_unfold ann_twice_def get_parents_def
        node_def edge_def)

text \<open>
  C9, amended.  No identifier has two nodes in the graph built; and when no parent list
  of the collection repeats an identifier, no edge occurs twice.  The only other outcome
  is the \<^verbatim>\<open>KeyError\<close> of a record without \<^verbatim>\<open>full_name\<close>.
\<close>

theorem build_graph_set_semantics:
  "case build_graph people start_id max_generations of
      Inl e \<Rightarrow> e = KeyError ''full_name'' \<and> \<not> all_named people
    | Inr g \<Rightarrow> distinct (map fst (nodes g)) \<and> (unique_parents people \<longrightarrow> distinct (edges g))"
proof (cases "build_graph people start_id max_generations")
  case (Inl e)
  then show ?thesis using build_graph_Inl[OF Inl] by simp
next
  case (Inr g)
  then obtain st where a: "add_node people max_generations start_id 0 new_graph = Inr st"
    and g: "g = graph st" by (auto simp: build_graph_Inr)
  from add_node_wf_state(1)[OF a wf_state_new_graph] g
  have n: "distinct (map fst (nodes g))" unfolding wf_state_def by blast
  have "distinct (edges g)" if u: "unique_parents people"
  proof -
    have "distinct (edges (graph new_graph))" by (simp add: new_graph_def)
    from add_node_distinct_edges(1)[OF a u wf_state_new_graph this] g show ?thesis by simp
  qed
  with n Inr show ?thesis by simp
qed

theorem build_graph_set_semantics_witness:
  "unique_parents [ann, bob]
   \<and> build_graph [ann, bob] ''p1'' 5 =
       Inr \<lparr>nodes = [(''p1'', ''Ann''), (''p2'', ''Bob'')], edges = [(''p2'', ''p1'')]\<rparr>
   \<and> distinct (map fst (nodes \<lparr>nodes = [(''p1'', ''Ann''), (''p2'', ''Bob'')],
                               edges = [(''p2'', ''p1'')]\<rparr>))
   \<and> distinct (edges \<lparr>nodes = [(''p1'', ''Ann''), (''p2'', ''Bob'')],
                      edges = [(''p2'', ''p1'')]\<rparr>)"
proof -
  have u: "unique_parents [ann, bob]"
    by (simp add: unique_parents_def ann_def bob_def get_parents_def)
  have e: "build_graph [ann, bob] ''p1'' 5 =
       Inr \<lparr>nodes = [(''p1'', ''Ann''), (''p2'', ''Bob'')], edges = [(''p2'', ''p1'')]\<rparr>"
    by (simp add: build_graph_def new_graph_def add_node_unfold ann_def bob_def get_parents_def
          node_def edge_def)
  from build_graph_set_semantics[of "[ann, bob]" "''p1''" 5] u e show ?thesis by simp
qed

text \<open>
  C10.  When no record has the start identifier and the generation bound is not
  negative, the graph built has exactly one node, the start identifier labelled by
  itself, and no edge.
\<close>

theorem build_graph_unresolved_start:
  assumes "get_person_by_id people start_id = None" and "0 \<le> max_generations"
  shows "build_graph people start_id max_generations =
           Inr \<lparr>nodes = [(start_id, start_id)], edges = []\<rparr>"
  using assms
  by (simp add: build_graph_def new_graph_def add_node_unfold node_def)

theorem build_graph_unresolved_start_witness:
  "get_person_by_id [ann, bob] ''p9'' = None \<and> (0::int) \<le> 20
   \<and> build_graph [ann, bob] ''p9'' 20 = Inr \<lparr>nodes = [(''p9'', ''p9'')], edges = []\<rparr>"
proof -
  have h1: "get_person_by_id [ann, bob] ''p9'' = None" by (simp add: ann_def bob_def)
  have h2: "(0::int) \<le> 20" by simp
  from build_graph_unresolved_start[OF h1 h2] h1 show ?thesis by simp
qed

section \<open>The claims about the lookup\<close>

text \<open>
  C3, as stated.  A record that has an identifier and no \<^verbatim>\<open>full_name\<close> is found by the
  lookup, and the subscript \<^verbatim>\<open>p['full_name']\<close> raises \<^verbatim>\<open>KeyError\<close>.
\<close>

theorem link_person_nameless_record:
  "get_person_by_id [nameless] ''p1'' = Some nameless
   \<and> link_person [nameless] ''p1'' = Inl (KeyError ''full_name'')"
  by (simp add: link_person_def nameless_def)

text \<open>
  C3, amended.  \<open>link_person\<close> returns the raw identifier when no record has it, and the
  link \<^verbatim>\<open>[full name](?profile=id)\<close> when the first record that has it also has a
  \<^verbatim>\<open>full_name\<close>; it raises \<^verbatim>\<open>KeyError\<close> exactly when that record has none.  On a
  collection in which every record has a \<^verbatim>\<open>full_name\<close> it never fails.
\<close>

theorem link_person_result:
  "link_person people pid =
     (case get_person_by_id people pid of
        None \<Rightarrow> Inr pid
      | Some p \<Rightarrow>
          (case full_name p of
             None \<Rightarrow> Inl (KeyError ''full_name'')
           | Some n \<Rightarrow> Inr (''['' @ n @ ''](?profile='' @ pid @ '')'')))
   \<and> (all_named people \<longrightarrow> (\<exists>s. link_person people pid = Inr s))"
proof -
  have eq: "link_person people pid =
     (case get_person_by_id people pid of
        None \<Rightarrow> Inr pid
      | Some p \<Rightarrow>
          (case full_name p of
             None \<Rightarrow> Inl (KeyError ''full_name'')
           | Some n \<Rightarrow> Inr (''['' @ n @ ''](?profile='' @ pid @ '')'')))"
  proof (cases "get_person_by_id people pid")
    case None
    then show ?thesis by (simp add: link_person_def)
  next
    case (Some p)
    from get_person_by_id_first[OF Some] have "p_id p = Some pid" by blast
    with Some show ?thesis by (simp add: link_person_def split: option.splits)
  qed
  have "\<exists>s. link_person people pid = Inr s" if n: "all_named people"
  proof (cases "get_person_by_id people pid")
    case None
    with eq show ?thesis by simp
  next
    case (Some p)
    then have "p \<in> set people" by (rule get_person_by_id_in_set)
    with n obtain l where "full_name p = Some l" by (auto simp: all_named_def list_all_iff)
    with eq Some show ?thesis by simp
  qed
  with eq show ?thesis by blast
qed

theorem link_person_result_witness:
  "all_named [ann, bob]
   \<and> link_person [ann, bob] ''p2'' = Inr ''[Bob](?profile=p2)''
   \<and> link_person [ann, bob] ''p7'' = Inr ''p7''"
proof -
  have n: "all_named [ann, bob]" by (simp add: all_named_def ann_def bob_def)
  from link_person_result[of "[ann, bob]" "''p2''"] link_person_result[of "[ann, bob]" "''p7''"] n
  show ?thesis by (simp add: ann_def bob_def)
qed

text \<open>
  C4.  On a collection with unique identifiers \<open>get_person_by_id\<close> returns the record
  with the queried identifier whenever there is one, and \<open>None\<close> for an identifier
  that no record has; what it returns is the first record with that identifier.  The
  function is total: it has no raising branch.
\<close>

theorem get_person_by_id_total:
  assumes "unique_ids people"
  shows "(\<forall>p \<in> set people. p_id p = Some pid \<longrightarrow> get_person_by_id people pid = Some p)
       \<and> (pid \<notin> set (ids_of people) \<longrightarrow> get_person_by_id people pid = None)
       \<and> (\<forall>p. get_person_by_id people pid = Some p \<longrightarrow>
            (\<exists>pre post. people = pre @ p # post \<and> p_id p = Some pid
               \<and> (\<forall>q \<in> set pre. p_id q \<noteq> Some pid)))"
proof -
  have "\<forall>p \<in> set people. p_id p = Some pid \<longrightarrow> get_person_by_id people pid = Some p"
    using assms get_person_by_id_unique by blast
  moreover have "pid \<notin> set (ids_of people) \<longrightarrow> get_person_by_id people pid = None"
    by (simp add: get_person_by_id_None)
  moreover have "\<forall>p. get_person_by_id people pid = Some p \<longrightarrow>
            (\<exists>pre post. people = pre @ p # post \<and> p_id p = Some pid
               \<and> (\<forall>q \<in> set pre. p_id q \<noteq> Some pid))"
    using get_person_by_id_first by blast
  ultimately show ?thesis by blast
qed

theorem get_person_by_id_total_witness:
  "unique_ids [ann, bob] \<and> bob \<in> set [ann, bob] \<and> p_id bob = Some ''p2''
   \<and> get_person_by_id [ann, bob] ''p2'' = Some bob
   \<and> ''missing'' \<notin> set (ids_of [ann, bob])
   \<and> get_person_by_id [ann, bob] ''missing'' = None"
proof -
  have u: "unique_ids [ann, bob]" by (simp add: unique_ids_def ann_def bob_def)
  have b: "bob \<in> set [ann, bob]" "p_id bob = Some ''p2''" by (simp_all add: bob_def)
  have m: "''missing'' \<notin> set (ids_of [ann, bob])" by (simp add: ann_def bob_def)
  from get_person_by_id_total[OF u, of "''p2''"] b
  have 1: "get_person_by_id [ann, bob] ''p2'' = Some bob" by blast
  from get_person_by_id_total[OF u, of "''missing''"] m
  have 2: "get_person_by_id [ann, bob] ''missing'' = None" by blast
  from u b m 1 2 show ?thesis by blast
qed

section \<open>The claims about the timeline\<close>

lemma str_le_iff: "str_le xs ys \<longleftrightarrow> xs \<le> ys"
  by (induction xs ys rule: str_le.induct) (auto simp: less_char_def)

lemma sorted_empty_key_first:
  "sorted (map f xs) \<Longrightarrow>
   xs = filter (\<lambda>e. f e = ([] :: string)) xs @ filter (\<lambda>e. f e \<noteq> []) xs"
proof (induction xs)
  case Nil
  then show ?case by simp
next
  case (Cons x xs)
  then have s: "sorted (map f xs)" and le: "\<forall>y \<in> set xs. f x \<le> f y" by auto
  show ?case
  proof (cases "f x = []")
    case True
    with Cons.IH[OF s] show ?thesis by simp
  next
    case False
    with le have "\<forall>y \<in> set xs. f y \<noteq> []" by auto
    then have "filter (\<lambda>e. f e = []) xs = []" and "filter (\<lambda>e. f e \<noteq> []) xs = xs"
      by (auto simp: filter_empty_conv filter_id_conv)
    with False show ?thesis by simp
  qed
qed

text \<open>
  C5.  The events come out ordered by the plain lexicographic comparison of their keys,
  the key of an event without \<^verbatim>\<open>date\<close> being the empty string; the output is a
  rearrangement of the input; and the events keyed by the empty string come first, in
  their input order, followed by the others sorted.
\<close>

theorem chronological_sorts_by_date_string:
  "sorted_wrt (\<lambda>a b. str_le (date_key a) (date_key b)) (chronological events)
   \<and> mset (chronological events) = mset events
   \<and> chronological events =
       filter (\<lambda>e. date_key e = []) events @ chronological (filter (\<lambda>e. date_key e \<noteq> []) events)"
proof -
  let ?r = "chronological events"
  have s: "sorted (map date_key ?r)" by (simp add: chronological_def)
  then have "sorted_wrt (\<lambda>a b. date_key a \<le> date_key b) ?r"
    by (simp add: sorted_map)
  then have 1: "sorted_wrt (\<lambda>a b. str_le (date_key a) (date_key b)) ?r"
    by (simp add: str_le_iff)
  have 2: "mset ?r = mset events" by (simp add: chronological_def)
  have "?r = filter (\<lambda>e. date_key e = []) ?r @ filter (\<lambda>e. date_key e \<noteq> []) ?r"
    using s by (rule sorted_empty_key_first)
  moreover have "filter (\<lambda>e. date_key e = []) ?r = filter (\<lambda>e. date_key e = []) events"
    unfolding chronological_def by (rule sort_key_stable)
  moreover have "filter (\<lambda>e. date_key e \<noteq> []) ?r = chronological (filter (\<lambda>e. date_key e \<noteq> []) events)"
    unfolding chronological_def by (rule filter_sort)
  ultimately have 3: "?r = filter (\<lambda>e. date_key e = []) events
      @ chronological (filter (\<lambda>e. date_key e \<noteq> []) events)" by simp
  from 1 2 3 show ?thesis by blast
qed

theorem chronological_sorts_by_date_string_witness:
  "chronological [event_a, event_b, event_c] = [event_c, event_b, event_a]
   \<and> date_key event_c = [] \<and> str_le (date_key event_b) (date_key event_a)"
proof -
  have k: "date_key event_a = ''1900-01-01''" "date_key event_b = ''1850-05-05''"
    "date_key event_c = []"
    by (simp_all add: date_key_def event_a_def event_b_def event_c_def)
  have f1: "filter (\<lambda>e. date_key e = []) [event_a, event_b, event_c] = [event_c]"
    by (simp add: k)
  have f2: "filter (\<lambda>e. date_key e \<noteq> []) [event_a, event_b, event_c] = [event_a, event_b]"
    by (simp add: k)
  have s: "chronological [event_a, event_b] = [event_b, event_a]"
    by (simp add: chronological_def k)
  from chronological_sorts_by_date_string[of "[event_a, event_b, event_c]"]
  have "chronological [event_a, event_b, event_c] = [event_c] @ [event_b, event_a]"
    unfolding f1 f2 s by blast
  then show ?thesis by (simp add: k)
qed

text \<open>
  C6.  The sort is stable: for every key \<open>k\<close> the events with that key keep their
  input order.  It is idempotent: sorting the sorted list changes nothing, and a list
  already ordered by the key is returned as it is.
\<close>

theorem chronological_stable_idempotent:
  "filter (\<lambda>e. date_key e = k) (chronological events) = filter (\<lambda>e. date_key e = k) events
   \<and> chronological (chronological events) = chronological events
   \<and> (sorted (map date_key events) \<longrightarrow> chronological events = events)"
proof -
  have "filter (\<lambda>e. date_key e = k) (chronological events) = filter (\<lambda>e. date_key e = k) events"
    unfolding chronological_def by (rule sort_key_stable)
  moreover have i: "sorted (map date_key xs) \<longrightarrow> chronological xs = xs" for xs :: "'a event_scheme list"
    unfolding chronological_def by (simp add: sort_key_id_if_sorted)
  moreover have "sorted (map date_key (chronological events))" by (simp add: chronological_def)
  with i[of "chronological events"] have "chronological (chronological events) = chronological events"
    by simp
  ultimately show ?thesis by blast
qed

theorem chronological_stable_idempotent_witness:
  "sorted (map date_key [event_c, event_b, event_d, event_a])
   \<and> chronological [event_c, event_b, event_d, event_a] = [event_c, event_b, event_d, event_a]
   \<and> filter (\<lambda>e. date_key e = ''1850-05-05'') (chronological [event_c, event_b, event_d, event_a])
       = [event_b, event_d]"
proof -
  have k: "date_key event_a = ''1900-01-01''" "date_key event_b = ''1850-05-05''"
    "date_key event_c = []" "date_key event_d = ''1850-05-05''"
    by (simp_all add: date_key_def event_a_def event_b_def event_c_def event_d_def)
  have s: "sorted (map date_key [event_c, event_b, event_d, event_a])" by (simp add: k)
  from chronological_stable_idempotent[of "''1850-05-05''" "[event_c, event_b, event_d, event_a]"] s
  show ?thesis by (simp add: k)
qed

section \<open>The claim about the data store\<close>

text \<open>
  C8, as stated.  \<open>load_json\<close> catches \<^verbatim>\<open>FileNotFoundError\<close> and
  \<^verbatim>\<open>JSONDecodeError\<close> only.  A file that is present and is not valid UTF-8 makes
  \<^verbatim>\<open>json.load\<close> raise \<^verbatim>\<open>UnicodeDecodeError\<close>, which leaves \<open>load_json\<close>.
\<close>

theorem load_json_undecodable_file:
  "load_json undecodable_files ''data/people.json'' =
     Inl (UnicodeDecodeError ''utf-8 codec cannot decode byte 0xff in position 0'')"
  by (simp add: load_json_def undecodable_files_def)

text \<open>
  C8, amended.  On a missing file \<open>load_json\<close> returns the empty list and the notice
  \<^verbatim>\<open>File not found: <path>\<close>; on a file that is not well-formed JSON it returns the
  empty list and the notice \<^verbatim>\<open>Error parsing <path>: <cause>\<close>; on a file that parses it
  returns the content and no notice.  It raises exactly the exceptions of the read that
  are neither \<^verbatim>\<open>FileNotFoundError\<close> nor \<^verbatim>\<open>JSONDecodeError\<close>.
\<close>

theorem load_json_missing_and_malformed:
  "(read path = Inl FileNotFoundError \<longrightarrow>
      load_json read path = Inr ([], [''File not found: '' @ path]))
   \<and> (\<forall>e. read path = Inl (JSONDecodeError e) \<longrightarrow>
      load_json read path = Inr ([], [''Error parsing '' @ path @ '': '' @ e]))
   \<and> (\<forall>d. read path = Inr d \<longrightarrow> load_json read path = Inr (d, []))
   \<and> (\<forall>x. load_json read path = Inl x \<longleftrightarrow>
        read path = Inl x \<and> x \<noteq> FileNotFoundError \<and> (\<forall>e. x \<noteq> JSONDecodeError e))"
  by (auto simp: load_json_def split: sum.splits error.splits)

theorem load_json_missing_and_malformed_witness:
  "sample_files ''data/notes.json'' = Inl FileNotFoundError
   \<and> load_json sample_files ''data/notes.json'' = Inr ([], [''File not found: data/notes.json''])
   \<and> sample_files ''data/events.json'' =
        Inl (JSONDecodeError ''Expecting value: line 1 column 1 (char 0)'')
   \<and> load_json sample_files ''data/events.json'' =
        Inr ([], [''Error parsing data/events.json: Expecting value: line 1 column 1 (char 0)''])
   \<and> sample_files ''data/people.json'' = Inr [ann, bob]
   \<and> load_json sample_files ''data/people.json'' = Inr ([ann, bob], [])"
proof -
  have r: "sample_files ''data/notes.json'' = Inl FileNotFoundError"
    "sample_files ''data/events.json'' =
        Inl (JSONDecodeError ''Expecting value: line 1 column 1 (char 0)'')"
    "sample_files ''data/people.json'' = Inr [ann, bob]"
    by (simp_all add: sample_files_def)
  from load_json_missing_and_malformed[of sample_files "''data/notes.json''"]
    load_json_missing_and_malformed[of sample_files "''data/events.json''"]
    load_json_missing_and_malformed[of sample_files "''data/people.json''"] r
  show ?thesis by simp
qed

end
